theory Spec2Isabelle
  imports Complex_Main "HOL-Library.Multiset"
begin

section \<open>Data model of \<open>oceanmesh/inpoly.py\<close>\<close>

text \<open>
  The source works on NumPy arrays: \<open>vert\<close> is an N-by-2 array of doubles, \<open>node\<close> an
  M-by-2 array of doubles and \<open>edge\<close> a P-by-2 array of integers. A row of a coordinate
  array is a pair of reals here (finite, non-NaN coordinates; rounding is outside the
  model, every property below depends on comparisons only), a row of the edge array a
  pair of integers. The exceptions NumPy raises are values of the type \<open>error\<close>.
\<close>

type_synonym point = "real \<times> real"
type_synonym edge = "int \<times> int"

datatype error = IndexError | ValueError

definition ebind :: "error + 'a \<Rightarrow> ('a \<Rightarrow> error + 'b) \<Rightarrow> error + 'b" where
  "ebind m f = (case m of Inl e \<Rightarrow> Inl e | Inr x \<Rightarrow> f x)"

subsection \<open>The array primitives the source calls\<close>

text \<open>Integer indexing of an axis of length \<open>m\<close>: an index in \<open>[-m, 0)\<close> counts from the
  end, an index outside \<open>[-m, m)\<close> raises IndexError.\<close>

definition py_index :: "nat \<Rightarrow> int \<Rightarrow> error + nat" where
  "py_index m i =
     (if 0 \<le> i \<and> i < int m then Inr (nat i)
      else if - int m \<le> i \<and> i < 0 then Inr (nat (i + int m))
      else Inl IndexError)"

text \<open>\<open>a[idx]\<close> for an integer index array \<open>idx\<close>.\<close>

fun fancy :: "'a list \<Rightarrow> int list \<Rightarrow> error + 'a list" where
  "fancy a [] = Inr []"
| "fancy a (i # js) =
     ebind (py_index (length a) i) (\<lambda>k. ebind (fancy a js) (\<lambda>r. Inr (a ! k # r)))"

text \<open>\<open>np.amin\<close>, \<open>np.nanmin\<close> and \<open>np.amax\<close>, \<open>np.nanmax\<close> of a column: a reduction with no
  identity, so a zero-size column raises ValueError.\<close>

fun amin :: "real list \<Rightarrow> error + real" where
  "amin [] = Inl ValueError"
| "amin (x # xs) = Inr (fold min xs x)"

fun amax :: "real list \<Rightarrow> error + real" where
  "amax [] = Inl ValueError"
| "amax (x # xs) = Inr (fold max xs x)"

text \<open>\<open>np.searchsorted\<close> is a bisection; \<open>bisect below a lo hi\<close> narrows \<open>[lo, hi)\<close> to the
  first index whose element fails \<open>below\<close>. Side "left" takes \<open>below y = (y < v)\<close>, side
  "right" takes \<open>below y = (y \<le> v)\<close>.\<close>

function bisect :: "(real \<Rightarrow> bool) \<Rightarrow> real list \<Rightarrow> nat \<Rightarrow> nat \<Rightarrow> nat" where
  "bisect below a lo hi =
     (if lo < hi then
        (let mid = lo + (hi - lo) div 2 in
         if below (a ! mid) then bisect below a (mid + 1) hi else bisect below a lo mid)
      else lo)"
  by pat_completeness auto
termination
  by (relation "measure (\<lambda>(below, a, lo, hi). hi - lo)") auto

declare bisect.simps [simp del]

definition searchsorted_left :: "real list \<Rightarrow> real \<Rightarrow> nat" where
  "searchsorted_left a v = bisect (\<lambda>y. y < v) a 0 (length a)"

definition searchsorted_right :: "real list \<Rightarrow> real \<Rightarrow> nat" where
  "searchsorted_right a v = bisect (\<lambda>y. y \<le> v) a 0 (length a)"

text \<open>\<open>np.argsort\<close>: the indices that sort the keys. NumPy's default sort leaves the
  order among equal keys open; the model takes the stable order, and lemma
  \<open>sort_order_irrelevant\<close> below shows that any permutation that sorts the keys gives the
  same final arrays.\<close>

definition argsort :: "real list \<Rightarrow> nat list" where
  "argsort ys = sort_key (\<lambda>i. ys ! i) [0..<length ys]"

text \<open>\<open>dst[ivec] = src\<close>: element \<open>k\<close> of \<open>src\<close> is stored at index \<open>ivec[k]\<close>.\<close>

definition put_at :: "nat list \<Rightarrow> 'a list \<Rightarrow> 'a list \<Rightarrow> 'a list" where
  "put_at ivec src dst = fold (\<lambda>(i, v) d. d[i := v]) (zip ivec src) dst"

text \<open>\<open>dst[mask] = src\<close>: the elements of \<open>src\<close> are stored, in order, at the indices
  where \<open>mask\<close> is true. In \<open>inpoly\<close> the number of true entries is the length of
  \<open>src\<close>, so the shape mismatch NumPy would report cannot occur.\<close>

fun put_mask :: "bool list \<Rightarrow> 'a list \<Rightarrow> 'a list \<Rightarrow> 'a list" where
  "put_mask (m # ms) src (d # ds) =
     (if m then (case src of v # vs \<Rightarrow> v # put_mask ms vs ds | [] \<Rightarrow> d # put_mask ms [] ds)
      else d # put_mask ms src ds)"
| "put_mask _ _ ds = ds"

text \<open>\<open>a[mask, :]\<close>: the rows where \<open>mask\<close> is true.\<close>

definition select :: "bool list \<Rightarrow> 'a list \<Rightarrow> 'a list" where
  "select msk a = map fst (filter snd (zip a msk))"

subsection \<open>The crossing-number kernel \<open>_inpoly\<close>\<close>

text \<open>Row \<open>epos\<close> of the arrays XONE, XTWO, YONE, YTWO, XMIN, XMAX, YMIN, YMAX, XDEL, YDEL
  (source lines 147 to 160).\<close>

record geom =
  xone :: real
  xtwo :: real
  yone :: real
  ytwo :: real
  xmin :: real
  xmax :: real
  ymin :: real
  ymax :: real
  xdel :: real
  ydel :: real

definition edge_geom :: "real \<Rightarrow> point \<Rightarrow> point \<Rightarrow> geom" where
  "edge_geom veps p1 p2 =
     \<lparr> xone = fst p1, xtwo = fst p2, yone = snd p1, ytwo = snd p2,
       xmin = min (fst p1) (fst p2), xmax = max (fst p1) (fst p2) + veps,
       ymin = snd p1 - veps, ymax = snd p2 + veps,
       xdel = fst p2 - fst p1, ydel = snd p2 - snd p1 \<rparr>"

text \<open>The body of the inner loop (source lines 182 to 215) at index \<open>jpos\<close>.\<close>

definition test_point ::
  "real \<Rightarrow> geom \<Rightarrow> point list \<Rightarrow> nat \<Rightarrow> bool list \<times> bool list \<Rightarrow> bool list \<times> bool list" where
  "test_point feps g vert jpos sb =
     (let stat = fst sb; bnds = snd sb in
      if bnds ! jpos then (stat, bnds)
      else
        (let xpos = fst (vert ! jpos); ypos = snd (vert ! jpos) in
         if xpos \<ge> xmin g then
           (if xpos \<le> xmax g then
              (let mul1 = ydel g * (xpos - xone g);
                   mul2 = xdel g * (ypos - yone g) in
               if feps \<ge> \<bar>mul2 - mul1\<bar> then (stat[jpos := True], bnds[jpos := True])
               else if ypos = yone g \<and> xpos = xone g then
                 (stat[jpos := True], bnds[jpos := True])
               else if ypos = ytwo g \<and> xpos = xtwo g then
                 (stat[jpos := True], bnds[jpos := True])
               else if mul1 < mul2 \<and> ypos \<ge> yone g \<and> ypos < ytwo g then
                 (stat[jpos := \<not> stat ! jpos], bnds)
               else (stat, bnds))
            else (stat, bnds))
         else if ypos \<ge> yone g \<and> ypos < ytwo g then (stat[jpos := \<not> stat ! jpos], bnds)
         else (stat, bnds)))"

text \<open>The inner loop \<open>for jpos in range(ione[epos], itwo[epos])\<close>.\<close>

definition edge_loop ::
  "real \<Rightarrow> point list \<Rightarrow> geom \<times> nat \<times> nat \<Rightarrow> bool list \<times> bool list \<Rightarrow> bool list \<times> bool list" where
  "edge_loop feps vert row sb =
     (case row of (g, lo, hi) \<Rightarrow> fold (test_point feps g vert) [lo..<hi] sb)"

text \<open>The kernel \<open>_inpoly\<close>, written \<open>u_inpoly\<close> since a name cannot begin with an
  underscore. Its fancy indexing \<open>node[edge[:, k], :]\<close> wraps a negative index as NumPy
  does; an index outside \<open>[-M, M)\<close>, which \<open>inpoly\<close> never passes on, is an IndexError
  here.\<close>

definition u_inpoly ::
  "point list \<Rightarrow> point list \<Rightarrow> edge list \<Rightarrow> real \<Rightarrow> real \<Rightarrow> error + bool list \<times> bool list" where
  "u_inpoly vert node edge ftol lbar =
     (let feps = ftol * lbar ^ 2;
          veps = ftol * lbar;
          stat = replicate (length vert) False;
          bnds = replicate (length vert) False in
      ebind (fancy node (map fst edge)) (\<lambda>one.
      ebind (fancy node (map snd edge)) (\<lambda>two.
        (let gs = map2 (edge_geom veps) one two;
             ione = map (\<lambda>g. searchsorted_left (map snd vert) (ymin g)) gs;
             itwo = map (\<lambda>g. searchsorted_right (map snd vert) (ymax g)) gs in
         Inr (fold (edge_loop feps vert) (zip gs (zip ione itwo)) (stat, bnds))))))"

subsection \<open>The driver \<open>inpoly\<close>\<close>

text \<open>The edge array made when the argument is omitted (source lines 70 to 75): an
  M-by-2 array of zeros whose first \<open>M - 1\<close> rows receive \<open>indx\<close> and \<open>indx + 1\<close>, and
  whose last row receives \<open>M - 1\<close> in its first column. With \<open>M = 0\<close> the write to
  row \<open>-1\<close> raises IndexError.\<close>

definition default_edge :: "nat \<Rightarrow> error + edge list" where
  "default_edge m =
     (let indx = map int [0..<m - 1];
          e0 = replicate m (0, 0);
          e1 = map2 (\<lambda>v r. (v, snd r)) (map (\<lambda>i. i + 0) indx) (butlast e0) @ drop (m - 1) e0;
          e2 = map2 (\<lambda>v r. (fst r, v)) (map (\<lambda>i. i + 1) indx) (butlast e1) @ drop (m - 1) e1 in
      if m = 0 then Inl IndexError
      else Inr (e2[m - 1 := (int m - 1, snd (e2 ! (m - 1)))]))"

text \<open>The bounding-box mask (source lines 84 to 91).\<close>

definition bbox_mask :: "point list \<Rightarrow> point list \<Rightarrow> error + bool list" where
  "bbox_mask vert node =
     ebind (amin (map fst node)) (\<lambda>nx0.
     ebind (amin (map snd node)) (\<lambda>ny0.
     ebind (amax (map fst node)) (\<lambda>nx1.
     ebind (amax (map snd node)) (\<lambda>ny1.
       Inr (map (\<lambda>p. fst p \<ge> nx0 \<and> snd p \<ge> ny0 \<and> fst p \<le> nx1 \<and> snd p \<le> ny1) vert)))))"

text \<open>The edge orientation (source lines 107 to 109): a row whose second node has the
  smaller y is reversed.\<close>

definition orient :: "point list \<Rightarrow> edge list \<Rightarrow> error + edge list" where
  "orient node edge =
     ebind (fancy node (map snd edge)) (\<lambda>two.
     ebind (fancy node (map fst edge)) (\<lambda>one.
       (let swap = map2 (\<lambda>b a. snd b < snd a) two one in
        Inr (map2 (\<lambda>e s. if s then (snd e, fst e) else e) edge swap))))"

text \<open>Everything \<open>inpoly\<close> computes before it calls the kernel (source lines 65 to 112).\<close>

record prep =
  p_mask :: "bool list"
  p_ivec :: "nat list"
  p_vert :: "point list"
  p_node :: "point list"
  p_edge :: "edge list"
  p_lbar :: real

definition preprocess :: "point list \<Rightarrow> point list \<Rightarrow> edge list option \<Rightarrow> error + prep" where
  "preprocess vert node edge_arg =
     ebind (case edge_arg of None \<Rightarrow> default_edge (length node) | Some e \<Rightarrow> Inr e) (\<lambda>edge.
     ebind (bbox_mask vert node) (\<lambda>msk.
       (let vert1 = select msk vert in
        ebind (amin (map fst vert1)) (\<lambda>vx0.
        ebind (amin (map snd vert1)) (\<lambda>vy0.
        ebind (amax (map fst vert1)) (\<lambda>vx1.
        ebind (amax (map snd vert1)) (\<lambda>vy1.
          (let ddx = vx1 - vx0;
               ddy = vy1 - vy0;
               lbar = (ddx + ddy) / 2;
               vert2 = (if ddx > ddy then map (\<lambda>p. (snd p, fst p)) vert1 else vert1);
               node2 = (if ddx > ddy then map (\<lambda>p. (snd p, fst p)) node else node) in
           ebind (orient node2 edge) (\<lambda>edge2.
             (let ivec = argsort (map snd vert2);
                  vert3 = map (\<lambda>i. vert2 ! i) ivec in
              Inr \<lparr> p_mask = msk, p_ivec = ivec, p_vert = vert3, p_node = node2,
                    p_edge = edge2, p_lbar = lbar \<rparr>))))))))))"

text \<open>The reindexing after the kernel (source lines 118 to 125).\<close>

definition unpack :: "prep \<Rightarrow> nat \<Rightarrow> bool list \<Rightarrow> bool list" where
  "unpack p n tmp =
     put_mask (p_mask p)
       (put_at (p_ivec p) tmp (replicate (length (p_vert p)) False))
       (replicate n False)"

text \<open>The caller's three arrays. \<open>np.asarray\<close> returns an array argument itself, so the
  name \<open>edge\<close> in \<open>inpoly\<close> denotes the caller's array when one is passed, and the
  assignment \<open>edge[swap, :] = temp[:, (1, 0)]\<close> writes into it. \<open>vert\<close> and \<open>node\<close> are
  only rebound to new arrays.\<close>

record caller =
  c_vert :: "point list"
  c_node :: "point list"
  c_edge :: "edge list option"

definition inpoly_call :: "caller \<Rightarrow> real \<Rightarrow> (error + bool list \<times> bool list) \<times> caller" where
  "inpoly_call c ftol =
     (case preprocess (c_vert c) (c_node c) (c_edge c) of
        Inl e \<Rightarrow> (Inl e, c)
      | Inr p \<Rightarrow>
          (let c' = c \<lparr> c_edge := map_option (\<lambda>_. p_edge p) (c_edge c) \<rparr> in
           case u_inpoly (p_vert p) (p_node p) (p_edge p) ftol (p_lbar p) of
             Inl e \<Rightarrow> (Inl e, c')
           | Inr (stmp, btmp) \<Rightarrow>
               (Inr (unpack p (length (c_vert c)) stmp, unpack p (length (c_vert c)) btmp), c')))"

definition inpoly ::
  "point list \<Rightarrow> point list \<Rightarrow> edge list option \<Rightarrow> real \<Rightarrow> error + bool list \<times> bool list" where
  "inpoly vert node edge_arg ftol =
     fst (inpoly_call \<lparr> c_vert = vert, c_node = node, c_edge = edge_arg \<rparr> ftol)"

section \<open>Reading the kernel point by point\<close>

text \<open>
  The definitions of this section are not translated from the source. They restate, for one
  query point at a time, what sections 4.1 to 4.3 of the specification say the pipeline
  does, and the lemmas below prove that the translated code computes exactly this.
\<close>

text \<open>The pair \<open>(stat[j], bnds[j])\<close> of the kernel's two arrays, and arrays of length \<open>n\<close>.\<close>

definition flags :: "bool list \<times> bool list \<Rightarrow> nat \<Rightarrow> bool \<times> bool" where
  "flags sb j = (fst sb ! j, snd sb ! j)"

definition sized :: "nat \<Rightarrow> bool list \<times> bool list \<Rightarrow> bool" where
  "sized n sb \<longleftrightarrow> length (fst sb) = n \<and> length (snd sb) = n"

text \<open>The point is on the edge: within the x-range of the edge and either within the area
  tolerance of its line or exactly on one of its two nodes.\<close>

definition latches :: "real \<Rightarrow> geom \<Rightarrow> point \<Rightarrow> bool" where
  "latches feps g p \<longleftrightarrow>
     xmin g \<le> fst p \<and> fst p \<le> xmax g \<and>
     (\<bar>xdel g * (snd p - yone g) - ydel g * (fst p - xone g)\<bar> \<le> feps
      \<or> (snd p = yone g \<and> fst p = xone g) \<or> (snd p = ytwo g \<and> fst p = xtwo g))"

text \<open>The ray from the point crosses the edge: the point is not on the edge, its y lies in
  the half-open range of the edge, and it is left of the edge's box or left of its line.\<close>

definition toggles :: "real \<Rightarrow> geom \<Rightarrow> point \<Rightarrow> bool" where
  "toggles feps g p \<longleftrightarrow>
     \<not> latches feps g p \<and> yone g \<le> snd p \<and> snd p < ytwo g \<and>
     (\<not> xmin g \<le> fst p \<or>
      fst p \<le> xmax g \<and> ydel g * (fst p - xone g) < xdel g * (snd p - yone g))"

text \<open>One edge test on the flags \<open>(inside, on_boundary)\<close> of one point.\<close>

definition point_step :: "real \<Rightarrow> geom \<Rightarrow> point \<Rightarrow> bool \<times> bool \<Rightarrow> bool \<times> bool" where
  "point_step feps g p fl =
     (if snd fl then fl
      else if latches feps g p then (True, True)
      else if toggles feps g p then (\<not> fst fl, False)
      else fl)"

text \<open>The effect of one row \<open>(g, lo, hi)\<close> of the kernel on index \<open>j\<close>.\<close>

definition row_step ::
  "real \<Rightarrow> point list \<Rightarrow> nat \<Rightarrow> geom \<times> nat \<times> nat \<Rightarrow> bool \<times> bool \<Rightarrow> bool \<times> bool" where
  "row_step feps vert j row fl =
     (case row of (g, lo, hi) \<Rightarrow>
        if lo \<le> j \<and> j < hi then point_step feps g (vert ! j) fl else fl)"

text \<open>Indices NumPy accepts for an axis of length \<open>m\<close>, and the position they denote.\<close>

definition index_ok :: "nat \<Rightarrow> int \<Rightarrow> bool" where
  "index_ok m i \<longleftrightarrow> - int m \<le> i \<and> i < int m"

definition wrap :: "nat \<Rightarrow> int \<Rightarrow> nat" where
  "wrap m i = (if 0 \<le> i then nat i else nat (i + int m))"

definition edges_ok :: "nat \<Rightarrow> edge list \<Rightarrow> bool" where
  "edges_ok m edge \<longleftrightarrow> (\<forall>e\<in>set edge. index_ok m (fst e) \<and> index_ok m (snd e))"

text \<open>The geometry of an edge and its row in the kernel.\<close>

definition geom_of :: "real \<Rightarrow> point list \<Rightarrow> edge \<Rightarrow> geom" where
  "geom_of veps node e =
     edge_geom veps (node ! wrap (length node) (fst e)) (node ! wrap (length node) (snd e))"

definition edge_row :: "real \<Rightarrow> point list \<Rightarrow> point list \<Rightarrow> edge \<Rightarrow> geom \<times> nat \<times> nat" where
  "edge_row veps vert node e =
     (let g = geom_of veps node e
      in (g, searchsorted_left (map snd vert) (ymin g), searchsorted_right (map snd vert) (ymax g)))"

text \<open>One edge on one point, the window test written on the coordinate; and the
  classification of a point by a list of edges.\<close>

definition edge_step :: "real \<Rightarrow> geom \<Rightarrow> point \<Rightarrow> bool \<times> bool \<Rightarrow> bool \<times> bool" where
  "edge_step feps g q fl =
     (if ymin g \<le> snd q \<and> snd q \<le> ymax g then point_step feps g q fl else fl)"

definition classify :: "real \<Rightarrow> real \<Rightarrow> point list \<Rightarrow> edge list \<Rightarrow> point \<Rightarrow> bool \<times> bool" where
  "classify feps veps node edge q =
     fold (\<lambda>e. edge_step feps (geom_of veps node e) q) edge (False, False)"

text \<open>The preprocessing in closed form: the bounding box of the nodes (inclusive), the
  axis swap, the orientation of one edge, the closed chain of default edges.\<close>

definition in_bbox :: "point list \<Rightarrow> point \<Rightarrow> bool" where
  "in_bbox node q \<longleftrightarrow>
     Min (set (map fst node)) \<le> fst q \<and> Min (set (map snd node)) \<le> snd q \<and>
     fst q \<le> Max (set (map fst node)) \<and> snd q \<le> Max (set (map snd node))"

definition swapc :: "bool \<Rightarrow> point \<Rightarrow> point" where
  "swapc flip q = (if flip then (snd q, fst q) else q)"

definition extent :: "real list \<Rightarrow> real" where
  "extent xs = Max (set xs) - Min (set xs)"

definition flip_of :: "point list \<Rightarrow> point list \<Rightarrow> bool" where
  "flip_of vert node =
     (extent (map fst (filter (in_bbox node) vert)) > extent (map snd (filter (in_bbox node) vert)))"

definition orient1 :: "point list \<Rightarrow> edge \<Rightarrow> edge" where
  "orient1 node e =
     (if snd (node ! wrap (length node) (snd e)) < snd (node ! wrap (length node) (fst e))
      then (snd e, fst e) else e)"

definition closed_chain :: "nat \<Rightarrow> edge list" where
  "closed_chain m = map (\<lambda>i. (int i, int i + 1)) [0..<m - 1] @ [(int m - 1, 0)]"

definition prep_of :: "point list \<Rightarrow> point list \<Rightarrow> edge list \<Rightarrow> prep" where
  "prep_of vert node edge =
     (let v2 = map (swapc (flip_of vert node)) (filter (in_bbox node) vert);
          node2 = map (swapc (flip_of vert node)) node;
          ivec = argsort (map snd v2) in
      \<lparr> p_mask = map (in_bbox node) vert, p_ivec = ivec, p_vert = map (\<lambda>i. v2 ! i) ivec,
        p_node = node2, p_edge = map (orient1 node2) edge,
        p_lbar = (extent (map fst (filter (in_bbox node) vert))
                  + extent (map snd (filter (in_bbox node) vert))) / 2 \<rparr>)"

text \<open>The classification of one query point of a call, as handed to the kernel.\<close>

definition point_class :: "prep \<Rightarrow> real \<Rightarrow> point \<Rightarrow> bool \<times> bool" where
  "point_class p ftol q =
     classify (ftol * (p_lbar p) ^ 2) (ftol * p_lbar p) (p_node p) (p_edge p) q"

text \<open>The inputs of the unit-square example of the specification.\<close>

definition square :: "point list" where
  "square = [(0, 0), (1, 0), (1, 1), (0, 1)]"

definition queries :: "point list" where
  "queries = [(1/2, 1/2), (0, 1/2), (2, 2), (0, 0)]"

definition ftol_default :: real where
  "ftol_default = 5 / 10 ^ 14"

text \<open>Two query points sorted by y and two edges of the unit square, for the kernel.\<close>

definition sorted_queries :: "point list" where
  "sorted_queries = [(0, 0), (1/2, 1/2)]"

definition two_edges :: "edge list" where
  "two_edges = [(0, 1), (1, 2)]"

section \<open>Bisection\<close>

text \<open>On a sorted array the bisection returns the first index whose element fails the test,
  which is what the documentation of \<open>np.searchsorted\<close> promises for both sides.\<close>

lemma bisect_correct:
  "sorted a \<Longrightarrow> (\<forall>x y. x \<le> y \<longrightarrow> below y \<longrightarrow> below x)
    \<Longrightarrow> lo \<le> hi \<Longrightarrow> hi \<le> length a
    \<Longrightarrow> \<forall>i<lo. below (a ! i)
    \<Longrightarrow> \<forall>i. hi \<le> i \<and> i < length a \<longrightarrow> \<not> below (a ! i)
    \<Longrightarrow> lo \<le> bisect below a lo hi \<and> bisect below a lo hi \<le> hi
        \<and> (\<forall>i<bisect below a lo hi. below (a ! i))
        \<and> (\<forall>i. bisect below a lo hi \<le> i \<and> i < length a \<longrightarrow> \<not> below (a ! i))"
proof (induction below a lo hi rule: bisect.induct)
  case (1 below a lo hi)
  note srt = "1.prems"(1) and mono = "1.prems"(2) and le = "1.prems"(3) and len = "1.prems"(4)
    and lows = "1.prems"(5) and highs = "1.prems"(6)
  show ?case
  proof (cases "lo < hi")
    case False
    then have "bisect below a lo hi = lo" by (subst bisect.simps) simp
    with False le lows highs show ?thesis by simp
  next
    case True
    define mid where "mid = lo + (hi - lo) div 2"
    have mid: "lo \<le> mid" "mid < hi" using True by (auto simp: mid_def)
    show ?thesis
    proof (cases "below (a ! mid)")
      case b: True
      have eq: "bisect below a lo hi = bisect below a (mid + 1) hi"
        using True b by (subst bisect.simps) (simp add: mid_def Let_def)
      have low: "\<forall>i<mid + 1. below (a ! i)"
      proof (intro allI impI)
        fix i assume "i < mid + 1"
        then have "a ! i \<le> a ! mid"
          using mid len sorted_nth_mono [OF srt, of i mid] by simp
        then show "below (a ! i)" using mono b by blast
      qed
      have "mid + 1 \<le> bisect below a (mid + 1) hi \<and> bisect below a (mid + 1) hi \<le> hi
        \<and> (\<forall>i<bisect below a (mid + 1) hi. below (a ! i))
        \<and> (\<forall>i. bisect below a (mid + 1) hi \<le> i \<and> i < length a \<longrightarrow> \<not> below (a ! i))"
        using "1.IH"(1) [OF True mid_def b srt mono _ len low highs] mid by simp
      then show ?thesis unfolding eq using mid by simp
    next
      case nb: False
      have eq: "bisect below a lo hi = bisect below a lo mid"
        using True nb by (subst bisect.simps) (simp add: mid_def Let_def)
      have high: "\<forall>i. mid \<le> i \<and> i < length a \<longrightarrow> \<not> below (a ! i)"
      proof (intro allI impI)
        fix i assume i: "mid \<le> i \<and> i < length a"
        then have "a ! mid \<le> a ! i"
          using sorted_nth_mono [OF srt, of mid i] by simp
        then show "\<not> below (a ! i)" using mono nb by blast
      qed
      have "lo \<le> bisect below a lo mid \<and> bisect below a lo mid \<le> mid
        \<and> (\<forall>i<bisect below a lo mid. below (a ! i))
        \<and> (\<forall>i. bisect below a lo mid \<le> i \<and> i < length a \<longrightarrow> \<not> below (a ! i))"
        using "1.IH"(2) [OF True mid_def nb srt mono mid(1) _ lows high] mid len by simp
      then show ?thesis unfolding eq using mid by simp
    qed
  qed
qed

lemma bisect_bounds: "lo \<le> hi \<Longrightarrow> lo \<le> bisect below a lo hi \<and> bisect below a lo hi \<le> hi"
proof (induction below a lo hi rule: bisect.induct)
  case (1 below a lo hi)
  show ?case
  proof (cases "lo < hi")
    case False
    then have "bisect below a lo hi = lo" by (subst bisect.simps) simp
    with False "1.prems" show ?thesis by simp
  next
    case True
    define mid where "mid = lo + (hi - lo) div 2"
    have mid: "lo \<le> mid" "mid < hi" using True by (auto simp: mid_def)
    show ?thesis
    proof (cases "below (a ! mid)")
      case b: True
      have eq: "bisect below a lo hi = bisect below a (mid + 1) hi"
        using True b by (subst bisect.simps) (simp add: mid_def Let_def)
      show ?thesis unfolding eq using "1.IH"(1) [OF True mid_def b] mid by simp
    next
      case nb: False
      have eq: "bisect below a lo hi = bisect below a lo mid"
        using True nb by (subst bisect.simps) (simp add: mid_def Let_def)
      show ?thesis unfolding eq using "1.IH"(2) [OF True mid_def nb] mid by simp
    qed
  qed
qed


lemma searchsorted_right_le_length: "searchsorted_right a v \<le> length a"
  using bisect_bounds [of 0 "length a"] by (simp add: searchsorted_right_def)

lemma searchsorted_left_first:
  assumes "sorted a"
  shows "(\<forall>i<searchsorted_left a v. a ! i < v)
       \<and> (\<forall>i. searchsorted_left a v \<le> i \<and> i < length a \<longrightarrow> v \<le> a ! i)"
  using bisect_correct [of a "\<lambda>y. y < v" 0 "length a"] assms
  by (auto simp: searchsorted_left_def not_less)

lemma searchsorted_right_first:
  assumes "sorted a"
  shows "(\<forall>i<searchsorted_right a v. a ! i \<le> v)
       \<and> (\<forall>i. searchsorted_right a v \<le> i \<and> i < length a \<longrightarrow> v < a ! i)"
  using bisect_correct [of a "\<lambda>y. y \<le> v" 0 "length a"] assms
  by (auto simp: searchsorted_right_def not_le)

lemma window_iff:
  assumes "sorted a" "j < length a"
  shows "searchsorted_left a lo \<le> j \<and> j < searchsorted_right a hi \<longleftrightarrow> lo \<le> a ! j \<and> a ! j \<le> hi"
  using searchsorted_left_first [OF assms(1), of lo] searchsorted_right_first [OF assms(1), of hi]
    assms(2)
  by (metis not_le not_less)

section \<open>The loop body and the inner loop, seen from one index\<close>

lemma body_shape:
  "(if nb then Z
    else if a then
      (if b then (if c then X else if d then X else if e then X else if f \<and> h1 \<and> h2 then Y else Z)
       else Z)
    else if h1 \<and> h2 then Y else Z)
   = (if nb then Z
      else if a \<and> b \<and> (c \<or> d \<or> e) then X
      else if \<not> (a \<and> b \<and> (c \<or> d \<or> e)) \<and> h1 \<and> h2 \<and> (\<not> a \<or> b \<and> f) then Y
      else Z)"
  by auto

lemma test_point_shape:
  "test_point feps g vert jpos (stat, bnds) =
     (if bnds ! jpos then (stat, bnds)
      else if latches feps g (vert ! jpos) then (stat[jpos := True], bnds[jpos := True])
      else if toggles feps g (vert ! jpos) then (stat[jpos := \<not> stat ! jpos], bnds)
      else (stat, bnds))"
  unfolding test_point_def latches_def toggles_def Let_def fst_conv snd_conv
  by (rule body_shape)

lemma sized_test_point: "sized n sb \<Longrightarrow> sized n (test_point feps g vert jpos sb)"
  by (cases sb) (simp add: sized_def test_point_shape)

lemma flags_test_point:
  assumes "sized n sb" "jpos < n" "j < n"
  shows "flags (test_point feps g vert jpos sb) j
         = (if j = jpos then point_step feps g (vert ! jpos) (flags sb jpos) else flags sb j)"
proof -
  obtain stat bnds where sb: "sb = (stat, bnds)" by (cases sb)
  have len: "jpos < length stat" "jpos < length bnds"
    using assms by (simp_all add: sized_def sb)
  show ?thesis
    unfolding sb test_point_shape using len
    by (simp add: flags_def point_step_def)
qed

lemma test_point_latched:
  "bnds ! jpos \<Longrightarrow> test_point feps g vert jpos (stat, bnds) = (stat, bnds)"
  by (simp add: test_point_shape)

lemma sized_fold_test:
  "sized n sb \<Longrightarrow> sized n (fold (test_point feps g vert) js sb)"
  by (induction js arbitrary: sb) (simp_all add: sized_test_point)

lemma flags_fold_test:
  assumes "sized n sb" "hi \<le> n" "j < n"
  shows "flags (fold (test_point feps g vert) [lo..<hi] sb) j
         = (if lo \<le> j \<and> j < hi then point_step feps g (vert ! j) (flags sb j) else flags sb j)"
  using assms(2)
proof (induction hi)
  case 0
  then show ?case by simp
next
  case (Suc hi)
  let ?sb = "fold (test_point feps g vert) [lo..<hi] sb"
  have w': "sized n ?sb" using assms(1) by (rule sized_fold_test)
  have IH: "flags ?sb j
         = (if lo \<le> j \<and> j < hi then point_step feps g (vert ! j) (flags sb j) else flags sb j)"
    using Suc by simp
  show ?case
  proof (cases "lo \<le> hi")
    case False
    then show ?thesis by auto
  next
    case True
    then have "fold (test_point feps g vert) [lo..<Suc hi] sb = test_point feps g vert hi ?sb"
      by simp
    moreover have "hi < n" using Suc.prems by simp
    ultimately show ?thesis
      using flags_test_point [OF w' \<open>hi < n\<close> assms(3), of feps g vert] IH True
      by auto
  qed
qed

lemma sized_edge_loop: "sized n sb \<Longrightarrow> sized n (edge_loop feps vert row sb)"
  by (cases row) (simp add: edge_loop_def sized_fold_test)

lemma flags_edge_loop:
  assumes "sized n sb" "snd (snd row) \<le> n" "j < n"
  shows "flags (edge_loop feps vert row sb) j = row_step feps vert j row (flags sb j)"
  using flags_fold_test [OF assms(1) _ assms(3)] assms(2)
  by (cases row) (simp add: edge_loop_def row_step_def)

lemma sized_fold_edge_loop:
  "sized n sb \<Longrightarrow> sized n (fold (edge_loop feps vert) rows sb)"
  by (induction rows arbitrary: sb) (simp_all add: sized_edge_loop)

lemma flags_fold_edge_loop:
  assumes "\<forall>row\<in>set rows. snd (snd row) \<le> n" "sized n sb" "j < n"
  shows "flags (fold (edge_loop feps vert) rows sb) j
         = fold (row_step feps vert j) rows (flags sb j)"
  using assms(1,2)
proof (induction rows arbitrary: sb)
  case Nil
  then show ?case by simp
next
  case (Cons row rows)
  have "flags (edge_loop feps vert row sb) j = row_step feps vert j row (flags sb j)"
    using flags_edge_loop [of n sb row j] Cons.prems assms(3) by simp
  then show ?case
    using Cons.IH [of "edge_loop feps vert row sb"] Cons.prems
    by (simp add: sized_edge_loop)
qed

lemma point_step_commute:
  "point_step feps g p (point_step feps g' p fl) = point_step feps g' p (point_step feps g p fl)"
  by (cases fl) (auto simp: point_step_def)

lemma row_step_commute:
  "row_step feps vert j r \<circ> row_step feps vert j r' = row_step feps vert j r' \<circ> row_step feps vert j r"
  by (cases r; cases r') (auto simp: row_step_def fun_eq_iff point_step_commute)

lemma fold_row_step_mset:
  "mset rows = mset rows' \<Longrightarrow> fold (row_step feps vert j) rows = fold (row_step feps vert j) rows'"
  by (rule fold_multiset_equiv) (simp_all add: row_step_commute)

lemma point_step_inv: "(snd fl \<longrightarrow> fst fl) \<Longrightarrow> snd (point_step feps g p fl) \<longrightarrow> fst (point_step feps g p fl)"
  by (simp add: point_step_def)

lemma row_step_inv: "(snd fl \<longrightarrow> fst fl) \<Longrightarrow> snd (row_step feps vert j row fl) \<longrightarrow> fst (row_step feps vert j row fl)"
  by (cases row) (simp add: row_step_def point_step_inv)

lemma fold_row_step_inv:
  "(snd fl \<longrightarrow> fst fl) \<Longrightarrow> snd (fold (row_step feps vert j) rows fl) \<longrightarrow> fst (fold (row_step feps vert j) rows fl)"
  by (induction rows arbitrary: fl) (simp_all add: row_step_inv)

lemma sized_flags_eq:
  assumes "sized n sb" "sized n sb'" "\<And>j. j < n \<Longrightarrow> flags sb j = flags sb' j"
  shows "sb = sb'"
proof -
  have "fst sb = fst sb'" "snd sb = snd sb'"
    using assms by (auto simp: sized_def flags_def list_eq_iff_nth_eq)
  then show ?thesis by (simp add: prod_eq_iff)
qed

lemma toggles_degenerate: "\<not> toggles feps (edge_geom veps p p) q"
  by (simp add: toggles_def edge_geom_def)

lemma point_step_degenerate:
  "point_step feps (edge_geom veps p p) q fl \<in> {fl, (True, True)}"
  by (simp add: point_step_def toggles_degenerate)

section \<open>The kernel in closed form\<close>

lemma py_index_eq: "py_index m i = (if index_ok m i then Inr (wrap m i) else Inl IndexError)"
  by (auto simp: py_index_def index_ok_def wrap_def)

lemma fancy_eq:
  "fancy a idx = (if \<forall>i\<in>set idx. index_ok (length a) i
                  then Inr (map (\<lambda>i. a ! wrap (length a) i) idx) else Inl IndexError)"
  by (induction idx) (auto simp: py_index_eq ebind_def)

lemma zip_rows:
  "zip (map2 f (map a xs) (map b xs))
       (zip (map l (map2 f (map a xs) (map b xs))) (map r (map2 f (map a xs) (map b xs))))
   = map (\<lambda>x. (f (a x) (b x), l (f (a x) (b x)), r (f (a x) (b x)))) xs"
  by (induction xs) simp_all

lemma u_inpoly_eq:
  "u_inpoly vert node edge ftol lbar =
     (if edges_ok (length node) edge then
        Inr (fold (edge_loop (ftol * lbar ^ 2) vert) (map (edge_row (ftol * lbar) vert node) edge)
               (replicate (length vert) False, replicate (length vert) False))
      else Inl IndexError)"
proof (cases "edges_ok (length node) edge")
  case True
  then have ok: "\<forall>i\<in>set (map fst edge). index_ok (length node) i"
    "\<forall>i\<in>set (map snd edge). index_ok (length node) i"
    by (auto simp: edges_ok_def)
  let ?A = "\<lambda>e. node ! wrap (length node) (fst e)"
  let ?B = "\<lambda>e. node ! wrap (length node) (snd e)"
  let ?gs = "map2 (edge_geom (ftol * lbar)) (map ?A edge) (map ?B edge)"
  let ?L = "\<lambda>g. searchsorted_left (map snd vert) (ymin g)"
  let ?R = "\<lambda>g. searchsorted_right (map snd vert) (ymax g)"
  have f1: "fancy node (map fst edge) = Inr (map ?A edge)"
    and f2: "fancy node (map snd edge) = Inr (map ?B edge)"
    using ok by (simp_all add: fancy_eq comp_def)
  have "u_inpoly vert node edge ftol lbar
        = Inr (fold (edge_loop (ftol * lbar ^ 2) vert) (zip ?gs (zip (map ?L ?gs) (map ?R ?gs)))
               (replicate (length vert) False, replicate (length vert) False))"
    by (simp only: u_inpoly_def Let_def f1 f2 ebind_def sum.case)
  also have "zip ?gs (zip (map ?L ?gs) (map ?R ?gs))
        = map (\<lambda>e. (edge_geom (ftol * lbar) (?A e) (?B e), ?L (edge_geom (ftol * lbar) (?A e) (?B e)),
                     ?R (edge_geom (ftol * lbar) (?A e) (?B e)))) edge"
    by (rule zip_rows)
  also have "\<dots> = map (edge_row (ftol * lbar) vert node) edge"
    by (simp add: edge_row_def geom_of_def Let_def)
  finally show ?thesis using True by simp
next
  case False
  then have "\<not> (\<forall>i\<in>set (map fst edge). index_ok (length node) i)
     \<or> \<not> (\<forall>i\<in>set (map snd edge). index_ok (length node) i)"
    by (auto simp: edges_ok_def)
  then show ?thesis
    unfolding u_inpoly_def Let_def fancy_eq using False
    by (auto simp: ebind_def)
qed

lemma sized_init: "sized n (replicate n False, replicate n False)"
  by (simp add: sized_def)

lemma flags_init: "j < n \<Longrightarrow> flags (replicate n False, replicate n False) j = (False, False)"
  by (simp add: flags_def)

lemma edge_row_hi: "snd (snd (edge_row veps vert node e)) \<le> length vert"
  using searchsorted_right_le_length [of "map snd vert"]
  by (simp add: edge_row_def Let_def)

lemma kernel_result:
  assumes "edges_ok (length node) edge"
  shows "\<exists>sb. u_inpoly vert node edge ftol lbar = Inr sb \<and> sized (length vert) sb
     \<and> (\<forall>j<length vert. flags sb j
           = fold (row_step (ftol * lbar ^ 2) vert j) (map (edge_row (ftol * lbar) vert node) edge)
               (False, False))"
proof -
  let ?rows = "map (edge_row (ftol * lbar) vert node) edge"
  let ?init = "(replicate (length vert) False, replicate (length vert) False)"
  let ?sb = "fold (edge_loop (ftol * lbar ^ 2) vert) ?rows ?init"
  have hi: "\<forall>row\<in>set ?rows. snd (snd row) \<le> length vert"
    by (auto simp: edge_row_hi)
  have "u_inpoly vert node edge ftol lbar = Inr ?sb"
    using assms by (simp add: u_inpoly_eq)
  moreover have "sized (length vert) ?sb"
    by (rule sized_fold_edge_loop) (rule sized_init)
  moreover have "\<forall>j<length vert. flags ?sb j = fold (row_step (ftol * lbar ^ 2) vert j) ?rows (False, False)"
    using flags_fold_edge_loop [OF hi sized_init] by (simp add: flags_init)
  ultimately show ?thesis by blast
qed

lemma edges_ok_mset: "mset edge' = mset edge \<Longrightarrow> edges_ok m edge' = edges_ok m edge"
  by (auto simp: edges_ok_def dest: mset_eq_setD)

lemma kernel_perm:
  assumes "mset edge' = mset edge"
  shows "u_inpoly vert node edge' ftol lbar = u_inpoly vert node edge ftol lbar"
proof (cases "edges_ok (length node) edge")
  case False
  then show ?thesis
    using edges_ok_mset [OF assms, of "length node"] by (simp add: u_inpoly_eq)
next
  case True
  then have ok': "edges_ok (length node) edge'"
    using edges_ok_mset [OF assms, of "length node"] by simp
  obtain sb where sb: "u_inpoly vert node edge ftol lbar = Inr sb" "sized (length vert) sb"
    "\<forall>j<length vert. flags sb j
           = fold (row_step (ftol * lbar ^ 2) vert j) (map (edge_row (ftol * lbar) vert node) edge)
               (False, False)"
    using kernel_result [OF True] by blast
  obtain sb' where sb': "u_inpoly vert node edge' ftol lbar = Inr sb'" "sized (length vert) sb'"
    "\<forall>j<length vert. flags sb' j
           = fold (row_step (ftol * lbar ^ 2) vert j) (map (edge_row (ftol * lbar) vert node) edge')
               (False, False)"
    using kernel_result [OF ok'] by blast
  have "mset (map (edge_row (ftol * lbar) vert node) edge')
      = mset (map (edge_row (ftol * lbar) vert node) edge)"
    using assms by (metis mset_map)
  then have "\<And>j. fold (row_step (ftol * lbar ^ 2) vert j) (map (edge_row (ftol * lbar) vert node) edge')
      = fold (row_step (ftol * lbar ^ 2) vert j) (map (edge_row (ftol * lbar) vert node) edge)"
    by (rule fold_row_step_mset)
  then have "sb' = sb"
    using sb(2,3) sb'(2,3) by (intro sized_flags_eq [of "length vert"]) simp_all
  then show ?thesis using sb(1) sb'(1) by simp
qed

lemma kernel_inv:
  assumes "u_inpoly vert node edge ftol lbar = Inr (stat, bnds)" "j < length vert"
  shows "length stat = length vert \<and> length bnds = length vert \<and> (bnds ! j \<longrightarrow> stat ! j)"
proof -
  have ok: "edges_ok (length node) edge"
    using assms(1) by (auto simp: u_inpoly_eq split: if_splits)
  from kernel_result [OF ok, of vert ftol lbar] assms
  have w: "sized (length vert) (stat, bnds)"
    and f: "flags (stat, bnds) j
           = fold (row_step (ftol * lbar ^ 2) vert j) (map (edge_row (ftol * lbar) vert node) edge)
               (False, False)"
    by auto
  have "snd (flags (stat, bnds) j) \<longrightarrow> fst (flags (stat, bnds) j)"
    unfolding f by (rule fold_row_step_inv) simp
  then show ?thesis using w by (simp add: flags_def sized_def)
qed

lemma row_step_sorted:
  assumes "sorted (map snd vert)" "j < length vert"
  shows "row_step feps vert j (edge_row veps vert node e) fl
         = edge_step feps (geom_of veps node e) (vert ! j) fl"
  using window_iff [OF assms(1), of j] assms(2)
  by (simp add: row_step_def edge_row_def Let_def edge_step_def geom_of_def)

lemma fold_row_step_sorted:
  assumes "sorted (map snd vert)" "j < length vert"
  shows "fold (row_step feps vert j) (map (edge_row veps vert node) edge) fl
         = fold (\<lambda>e. edge_step feps (geom_of veps node e) (vert ! j)) edge fl"
  by (induction edge arbitrary: fl) (simp_all add: row_step_sorted [OF assms])

lemma kernel_sorted:
  assumes "edges_ok (length node) edge" "sorted (map snd vert)"
  shows "u_inpoly vert node edge ftol lbar
         = Inr (map (\<lambda>q. fst (classify (ftol * lbar ^ 2) (ftol * lbar) node edge q)) vert,
                map (\<lambda>q. snd (classify (ftol * lbar ^ 2) (ftol * lbar) node edge q)) vert)"
proof -
  let ?C = "classify (ftol * lbar ^ 2) (ftol * lbar) node edge"
  obtain sb where sb: "u_inpoly vert node edge ftol lbar = Inr sb" "sized (length vert) sb"
    "\<forall>j<length vert. flags sb j
           = fold (row_step (ftol * lbar ^ 2) vert j) (map (edge_row (ftol * lbar) vert node) edge)
               (False, False)"
    using kernel_result [OF assms(1)] by blast
  have "sb = (map (\<lambda>q. fst (?C q)) vert, map (\<lambda>q. snd (?C q)) vert)"
  proof (rule sized_flags_eq [of "length vert"])
    show "sized (length vert) sb" by (rule sb(2))
    show "sized (length vert) (map (\<lambda>q. fst (?C q)) vert, map (\<lambda>q. snd (?C q)) vert)"
      by (simp add: sized_def)
    fix j assume j: "j < length vert"
    then show "flags sb j = flags (map (\<lambda>q. fst (?C q)) vert, map (\<lambda>q. snd (?C q)) vert) j"
      using sb(3) fold_row_step_sorted [OF assms(2) j]
      by (simp add: flags_def classify_def)
  qed
  then show ?thesis using sb(1) by simp
qed

lemma classify_inv: "snd (classify feps veps node edge q) \<longrightarrow> fst (classify feps veps node edge q)"
proof -
  have "\<And>fl. (snd fl \<longrightarrow> fst fl) \<Longrightarrow>
    snd (fold (\<lambda>e. edge_step feps (geom_of veps node e) q) edge fl)
      \<longrightarrow> fst (fold (\<lambda>e. edge_step feps (geom_of veps node e) q) edge fl)"
  proof (induction edge)
    case Nil
    then show ?case by simp
  next
    case (Cons e edge)
    have "snd (edge_step feps (geom_of veps node e) q fl)
      \<longrightarrow> fst (edge_step feps (geom_of veps node e) q fl)"
      using Cons.prems point_step_inv [of fl] by (simp add: edge_step_def)
    then show ?case using Cons.IH by simp
  qed
  then show ?thesis by (simp add: classify_def)
qed

section \<open>Reindexing: \<open>put_at\<close>, \<open>put_mask\<close>, \<open>argsort\<close>\<close>

lemma length_fold_upd: "length (fold (\<lambda>(i, v) d. d[i := v]) ps dst) = length dst"
  by (induction ps arbitrary: dst) (auto split: prod.splits)

lemma fold_upd_other:
  "i \<notin> fst ` set ps \<Longrightarrow> fold (\<lambda>(i, v) d. d[i := v]) ps dst ! i = dst ! i"
  by (induction ps arbitrary: dst) (auto split: prod.splits)

lemma fold_upd_nth:
  "distinct (map fst ps) \<Longrightarrow> k < length ps \<Longrightarrow> fst (ps ! k) < length dst
   \<Longrightarrow> fold (\<lambda>(i, v) d. d[i := v]) ps dst ! fst (ps ! k) = snd (ps ! k)"
proof (induction ps arbitrary: dst k)
  case Nil
  then show ?case by simp
next
  case (Cons a ps)
  obtain i v where a: "a = (i, v)" by (cases a)
  show ?case
  proof (cases k)
    case 0
    have "i \<notin> fst ` set ps" using Cons.prems(1) by (simp add: a)
    then show ?thesis using Cons.prems 0
      by (simp add: a fold_upd_other)
  next
    case (Suc k')
    then show ?thesis using Cons.prems Cons.IH [of k' "dst[i := v]"]
      by (simp add: a)
  qed
qed

lemma length_put_at: "length (put_at ivec src dst) = length dst"
  by (simp add: put_at_def length_fold_upd)

lemma put_at_nth:
  assumes "distinct ivec" "length ivec = length src" "k < length ivec" "ivec ! k < length dst"
  shows "put_at ivec src dst ! (ivec ! k) = src ! k"
  using fold_upd_nth [of "zip ivec src" k dst] assms
  by (simp add: put_at_def)

lemma argsort_props:
  "length (argsort ys) = length ys" "distinct (argsort ys)" "set (argsort ys) = {..<length ys}"
  "sorted (map (\<lambda>i. ys ! i) (argsort ys))" "mset (argsort ys) = mset [0..<length ys]"
  by (auto simp: argsort_def)

lemma unsort:
  assumes "distinct ivec" "set ivec = {..<n}" "length tmp = n" "length v = n"
    and "\<And>k. k < n \<Longrightarrow> tmp ! k = F (v ! (ivec ! k))"
  shows "put_at ivec tmp (replicate n False) = map F v"
proof (rule nth_equalityI)
  show "length (put_at ivec tmp (replicate n False)) = length (map F v)"
    by (simp add: length_put_at assms(4))
next
  have len: "length ivec = n"
    using distinct_card [OF assms(1)] assms(2) by simp
  fix i assume "i < length (put_at ivec tmp (replicate n False))"
  then have i: "i < n" by (simp add: length_put_at)
  then have "i \<in> set ivec" by (simp add: assms(2))
  then obtain k where k: "k < length ivec" "ivec ! k = i"
    by (auto simp: in_set_conv_nth)
  have "put_at ivec tmp (replicate n False) ! (ivec ! k) = tmp ! k"
    by (rule put_at_nth) (use k i len in \<open>simp_all add: assms(1,3)\<close>)
  then show "put_at ivec tmp (replicate n False) ! i = map F v ! i"
    using k i len assms(4,5) by simp
qed

lemma sort_order_irrelevant:
  assumes "distinct ivec" and "set ivec = {..<length v}"
    and "sorted (map (\<lambda>i. snd (v ! i)) ivec)" and "edges_ok (length node) edge"
  shows "\<exists>stmp btmp. u_inpoly (map (\<lambda>i. v ! i) ivec) node edge ftol lbar = Inr (stmp, btmp)
     \<and> put_at ivec stmp (replicate (length v) False)
         = map (\<lambda>q. fst (classify (ftol * lbar ^ 2) (ftol * lbar) node edge q)) v
     \<and> put_at ivec btmp (replicate (length v) False)
         = map (\<lambda>q. snd (classify (ftol * lbar ^ 2) (ftol * lbar) node edge q)) v"
proof -
  let ?C = "classify (ftol * lbar ^ 2) (ftol * lbar) node edge"
  let ?w = "map (\<lambda>i. v ! i) ivec"
  have len: "length ivec = length v"
    using distinct_card [OF assms(1)] assms(2) by simp
  have srt: "sorted (map snd ?w)"
    using assms(3) by (simp add: comp_def)
  have k: "u_inpoly ?w node edge ftol lbar
      = Inr (map (\<lambda>q. fst (?C q)) ?w, map (\<lambda>q. snd (?C q)) ?w)"
    by (rule kernel_sorted [OF assms(4) srt])
  have s: "put_at ivec (map (\<lambda>q. fst (?C q)) ?w) (replicate (length v) False)
      = map (\<lambda>q. fst (?C q)) v"
    by (rule unsort [OF assms(1,2)]) (simp_all add: len)
  have b: "put_at ivec (map (\<lambda>q. snd (?C q)) ?w) (replicate (length v) False)
      = map (\<lambda>q. snd (?C q)) v"
    by (rule unsort [OF assms(1,2)]) (simp_all add: len)
  show ?thesis using k s b by blast
qed

lemma length_put_mask: "length (put_mask msk src ds) = length ds"
  by (induction msk src ds rule: put_mask.induct) (auto split: list.splits)

lemma put_mask_nth:
  "length msk = length a \<Longrightarrow> length ds = length a \<Longrightarrow> i < length a
   \<Longrightarrow> put_mask msk (map f (select msk a)) ds ! i = (if msk ! i then f (a ! i) else ds ! i)"
proof (induction msk arbitrary: a ds i)
  case Nil
  then show ?case by simp
next
  case (Cons m msk)
  obtain x a' where a: "a = x # a'" using Cons.prems(1) by (cases a) auto
  obtain d ds' where ds: "ds = d # ds'" using Cons.prems(2) a by (cases ds) auto
  have sel: "select (m # msk) (x # a') = (if m then x # select msk a' else select msk a')"
    by (simp add: select_def)
  show ?case
  proof (cases i)
    case 0
    then show ?thesis by (simp add: a ds sel)
  next
    case (Suc i')
    then show ?thesis
      using Cons.IH [of a' ds' i'] Cons.prems by (simp add: a ds sel)
  qed
qed

lemma select_map: "select (map P a) a = filter P a"
  by (induction a) (simp_all add: select_def)

lemma length_select_le: "length (select msk a) \<le> length a"
  unfolding select_def by (metis length_filter_le length_map length_zip min.cobounded1 le_trans)

section \<open>The preprocessing in closed form\<close>

lemma amin_eq: "amin xs = (if xs = [] then Inl ValueError else Inr (Min (set xs)))"
proof (cases xs)
  case Nil
  then show ?thesis by simp
next
  case (Cons a list)
  then show ?thesis using Min.set_eq_fold [of a list] by simp
qed

lemma amax_eq: "amax xs = (if xs = [] then Inl ValueError else Inr (Max (set xs)))"
proof (cases xs)
  case Nil
  then show ?thesis by simp
next
  case (Cons a list)
  then show ?thesis using Max.set_eq_fold [of a list] by simp
qed

lemma bbox_mask_eq:
  "bbox_mask vert node = (if node = [] then Inl ValueError else Inr (map (in_bbox node) vert))"
  by (simp add: bbox_mask_def amin_eq amax_eq ebind_def in_bbox_def conj_ac)

lemma map2_map_map: "map2 f (map a xs) (map b xs) = map (\<lambda>x. f (a x) (b x)) xs"
  by (induction xs) simp_all

lemma map2_same: "map2 f xs (map b xs) = map (\<lambda>x. f x (b x)) xs"
  by (induction xs) simp_all

lemma orient_eq:
  "orient node edge =
     (if edges_ok (length node) edge then Inr (map (orient1 node) edge) else Inl IndexError)"
proof (cases "edges_ok (length node) edge")
  case True
  let ?A = "\<lambda>e. node ! wrap (length node) (fst e)"
  let ?B = "\<lambda>e. node ! wrap (length node) (snd e)"
  have f1: "fancy node (map fst edge) = Inr (map ?A edge)"
    and f2: "fancy node (map snd edge) = Inr (map ?B edge)"
    using True by (auto simp: fancy_eq comp_def edges_ok_def)
  have "orient node edge
      = Inr (map2 (\<lambda>e s. if s then (snd e, fst e) else e) edge
               (map2 (\<lambda>b a. snd b < snd a) (map ?B edge) (map ?A edge)))"
    by (simp only: orient_def Let_def f1 f2 ebind_def sum.case)
  also have "map2 (\<lambda>b a. snd b < snd a) (map ?B edge) (map ?A edge)
      = map (\<lambda>e. snd (?B e) < snd (?A e)) edge"
    by (rule map2_map_map)
  also have "map2 (\<lambda>e s. if s then (snd e, fst e) else e) edge (map (\<lambda>e. snd (?B e) < snd (?A e)) edge)
      = map (orient1 node) edge"
    by (simp add: map2_same orient1_def)
  finally show ?thesis using True by simp
next
  case False
  then have "\<not> (\<forall>i\<in>set (map fst edge). index_ok (length node) i)
     \<or> \<not> (\<forall>i\<in>set (map snd edge). index_ok (length node) i)"
    by (auto simp: edges_ok_def)
  then show ?thesis
    unfolding orient_def Let_def fancy_eq using False
    by (auto simp: ebind_def)
qed

lemma index_ok_orient1:
  "index_ok m (fst (orient1 node e)) \<and> index_ok m (snd (orient1 node e))
   \<longleftrightarrow> index_ok m (fst e) \<and> index_ok m (snd e)"
  by (auto simp: orient1_def)

lemma edges_ok_orient: "edges_ok m (map (orient1 node) edge) = edges_ok m edge"
  by (simp add: edges_ok_def index_ok_orient1)

lemma map_swapc: "(if flip then map (\<lambda>p. (snd p, fst p)) xs else xs) = map (swapc flip) xs"
  by (induction xs) (simp_all add: swapc_def)

lemma preprocess_edges:
  "preprocess vert node (Some edge) =
     (if node = [] \<or> filter (in_bbox node) vert = [] then Inl ValueError
      else if edges_ok (length node) edge then Inr (prep_of vert node edge)
      else Inl IndexError)"
  by (simp add: preprocess_def bbox_mask_eq ebind_def select_map amin_eq amax_eq Let_def
      orient_eq prep_of_def extent_def map_swapc flip_of_def)

lemma default_edge_eq:
  "default_edge m = (if m = 0 then Inl IndexError else Inr (closed_chain m))"
proof (cases "m = 0")
  case True
  then show ?thesis by (simp add: default_edge_def)
next
  case False
  let ?indx = "map int [0..<m - 1]"
  let ?e0 = "replicate m (0::int, 0::int)"
  let ?e1 = "map2 (\<lambda>v r. (v, snd r)) (map (\<lambda>i. i + 0) ?indx) (butlast ?e0) @ drop (m - 1) ?e0"
  let ?e2 = "map2 (\<lambda>v r. (fst r, v)) (map (\<lambda>i. i + 1) ?indx) (butlast ?e1) @ drop (m - 1) ?e1"
  have e1: "?e1 = map (\<lambda>i. (int i, 0)) [0..<m - 1] @ [(0, 0)]"
    using False by (auto simp: list_eq_iff_nth_eq nth_append nth_butlast)
  have e2: "?e2 = map (\<lambda>i. (int i, int i + 1)) [0..<m - 1] @ [(0, 0)]"
    unfolding e1 using False by (auto simp: list_eq_iff_nth_eq nth_append nth_butlast)
  have "?e2[m - 1 := (int m - 1, snd (?e2 ! (m - 1)))] = closed_chain m"
    unfolding e2 closed_chain_def by (simp add: list_update_append nth_append)
  then show ?thesis
    using False unfolding default_edge_def Let_def by simp
qed

lemma default_edge_zero: "default_edge 0 = Inl IndexError"
  by (simp add: default_edge_eq)

lemma edges_ok_chain: "0 < m \<Longrightarrow> edges_ok m (closed_chain m)"
  by (auto simp: edges_ok_def closed_chain_def index_ok_def)

lemma preprocess_None:
  "preprocess vert node None =
     (if node = [] then Inl IndexError else preprocess vert node (Some (closed_chain (length node))))"
  by (simp add: preprocess_def default_edge_eq ebind_def)

lemma preprocess_Inr:
  "preprocess vert node edge_arg = Inr p \<longleftrightarrow>
     node \<noteq> [] \<and> filter (in_bbox node) vert \<noteq> [] \<and>
     (\<exists>edge. (edge_arg = Some edge \<or> edge_arg = None \<and> edge = closed_chain (length node))
        \<and> edges_ok (length node) edge \<and> p = prep_of vert node edge)"
proof (cases edge_arg)
  case None
  then show ?thesis
    using edges_ok_chain [of "length node"]
    by (auto simp: preprocess_None preprocess_edges)
next
  case (Some edge)
  then show ?thesis by (auto simp: preprocess_edges)
qed

lemma prep_of_fields:
  "p_mask (prep_of vert node edge) = map (in_bbox node) vert"
  "p_ivec (prep_of vert node edge)
     = argsort (map snd (map (swapc (flip_of vert node)) (filter (in_bbox node) vert)))"
  "p_vert (prep_of vert node edge)
     = map (\<lambda>i. map (swapc (flip_of vert node)) (filter (in_bbox node) vert) ! i)
         (argsort (map snd (map (swapc (flip_of vert node)) (filter (in_bbox node) vert))))"
  "p_node (prep_of vert node edge) = map (swapc (flip_of vert node)) node"
  "p_edge (prep_of vert node edge) = map (orient1 (map (swapc (flip_of vert node)) node)) edge"
  "p_lbar (prep_of vert node edge)
     = (extent (map fst (filter (in_bbox node) vert)) + extent (map snd (filter (in_bbox node) vert))) / 2"
  by (simp_all add: prep_of_def Let_def)

lemma map_nth_argsort:
  "map snd (map (\<lambda>i. v ! i) (argsort (map snd v))) = map (\<lambda>i. map snd v ! i) (argsort (map snd v))"
proof -
  have "\<forall>i\<in>set (argsort (map snd v)). i < length v"
    by (simp add: argsort_props)
  then show ?thesis by simp
qed

lemma sorted_p_vert: "sorted (map snd (p_vert (prep_of vert node edge)))"
  unfolding prep_of_fields map_nth_argsort by (rule argsort_props)

lemma length_p_vert:
  "length (p_vert (prep_of vert node edge)) = length (filter (in_bbox node) vert)"
  by (simp add: prep_of_fields argsort_props)

lemma mset_p_vert:
  "mset (p_vert (prep_of vert node edge))
     = mset (map (swapc (flip_of vert node)) (filter (in_bbox node) vert))"
proof -
  let ?v2 = "map (swapc (flip_of vert node)) (filter (in_bbox node) vert)"
  have "mset (map (\<lambda>i. ?v2 ! i) (argsort (map snd ?v2)))
      = image_mset (\<lambda>i. ?v2 ! i) (mset (argsort (map snd ?v2)))"
    by simp
  also have "\<dots> = image_mset (\<lambda>i. ?v2 ! i) (mset [0..<length ?v2])"
    by (simp add: argsort_props(5))
  also have "\<dots> = mset (map (\<lambda>i. ?v2 ! i) [0..<length ?v2])"
    by simp
  also have "\<dots> = mset ?v2"
    by (simp only: map_nth)
  finally show ?thesis by (simp only: prep_of_fields(3))
qed

section \<open>The call in closed form\<close>

text \<open>When the preprocessing succeeds the call returns, for every query point, whether it lies
  in the bounding box of the nodes and is classified inside (on the boundary) by the edges;
  when the preprocessing raises, the call raises the same error and has written nothing.\<close>

lemma unpack_eq:
  "unpack (prep_of vert node edge) (length vert) (map F (p_vert (prep_of vert node edge)))
     = map (\<lambda>q. in_bbox node q \<and> F (swapc (flip_of vert node) q)) vert"
proof -
  let ?v1 = "filter (in_bbox node) vert"
  let ?v2 = "map (swapc (flip_of vert node)) ?v1"
  let ?ys = "map snd ?v2"
  let ?P = "prep_of vert node edge"
  have len: "length (p_vert ?P) = length ?ys"
    by (simp add: length_p_vert)
  have "put_at (argsort ?ys) (map F (p_vert ?P)) (replicate (length ?ys) False) = map F ?v2"
  proof (rule unsort)
    show "distinct (argsort ?ys)" by (rule argsort_props)
    show "set (argsort ?ys) = {..<length ?ys}" by (rule argsort_props)
    show "length (map F (p_vert ?P)) = length ?ys" by (simp add: length_p_vert)
    show "length ?v2 = length ?ys" by simp
    fix k assume "k < length ?ys"
    then show "map F (p_vert ?P) ! k = F (?v2 ! (argsort ?ys ! k))"
      by (simp add: prep_of_fields(3) argsort_props del: map_map)
  qed
  then have pa: "put_at (p_ivec ?P) (map F (p_vert ?P)) (replicate (length (p_vert ?P)) False)
      = map (\<lambda>q. F (swapc (flip_of vert node) q)) (select (map (in_bbox node) vert) vert)"
    unfolding len by (simp add: prep_of_fields(2) select_map comp_def)
  show ?thesis
  proof (rule nth_equalityI)
    show "length (unpack ?P (length vert) (map F (p_vert ?P)))
        = length (map (\<lambda>q. in_bbox node q \<and> F (swapc (flip_of vert node) q)) vert)"
      by (simp add: unpack_def length_put_mask)
  next
    fix i assume "i < length (unpack ?P (length vert) (map F (p_vert ?P)))"
    then have i: "i < length vert" by (simp add: unpack_def length_put_mask)
    have "unpack ?P (length vert) (map F (p_vert ?P)) ! i
        = put_mask (map (in_bbox node) vert)
            (map (\<lambda>q. F (swapc (flip_of vert node) q)) (select (map (in_bbox node) vert) vert))
            (replicate (length vert) False) ! i"
      unfolding unpack_def pa by (simp add: prep_of_fields(1))
    also have "\<dots> = (if map (in_bbox node) vert ! i then F (swapc (flip_of vert node) (vert ! i))
                      else replicate (length vert) False ! i)"
      by (rule put_mask_nth) (use i in simp_all)
    finally show "unpack ?P (length vert) (map F (p_vert ?P)) ! i
        = map (\<lambda>q. in_bbox node q \<and> F (swapc (flip_of vert node) q)) vert ! i"
      using i by simp
  qed
qed

lemma inpoly_call_prep:
  assumes "preprocess vert node edge_arg = Inr p"
  shows "inpoly_call \<lparr> c_vert = vert, c_node = node, c_edge = edge_arg \<rparr> ftol
     = (Inr (map (\<lambda>q. in_bbox node q \<and> fst (point_class p ftol (swapc (flip_of vert node) q))) vert,
             map (\<lambda>q. in_bbox node q \<and> snd (point_class p ftol (swapc (flip_of vert node) q))) vert),
        \<lparr> c_vert = vert, c_node = node, c_edge = map_option (\<lambda>_. p_edge p) edge_arg \<rparr>)"
proof -
  obtain edge where e: "edges_ok (length node) edge" "p = prep_of vert node edge"
    using assms by (auto simp: preprocess_Inr)
  have ok: "edges_ok (length (p_node p)) (p_edge p)"
    using e(1) by (simp add: e(2) prep_of_fields edges_ok_orient)
  have srt: "sorted (map snd (p_vert p))"
    unfolding e(2) by (rule sorted_p_vert)
  have k: "u_inpoly (p_vert p) (p_node p) (p_edge p) ftol (p_lbar p)
      = Inr (map (\<lambda>q. fst (point_class p ftol q)) (p_vert p),
             map (\<lambda>q. snd (point_class p ftol q)) (p_vert p))"
    unfolding point_class_def by (rule kernel_sorted [OF ok srt])
  have u1: "unpack p (length vert) (map (\<lambda>q. fst (point_class p ftol q)) (p_vert p))
      = map (\<lambda>q. in_bbox node q \<and> fst (point_class p ftol (swapc (flip_of vert node) q))) vert"
    unfolding e(2) by (rule unpack_eq)
  have u2: "unpack p (length vert) (map (\<lambda>q. snd (point_class p ftol q)) (p_vert p))
      = map (\<lambda>q. in_bbox node q \<and> snd (point_class p ftol (swapc (flip_of vert node) q))) vert"
    unfolding e(2) by (rule unpack_eq)
  show ?thesis
    by (simp add: inpoly_call_def assms k u1 u2 Let_def)
qed

lemma inpoly_call_fail:
  assumes "preprocess vert node edge_arg = Inl err"
  shows "inpoly_call \<lparr> c_vert = vert, c_node = node, c_edge = edge_arg \<rparr> ftol
     = (Inl err, \<lparr> c_vert = vert, c_node = node, c_edge = edge_arg \<rparr>)"
  by (simp add: inpoly_call_def assms)

lemma inpoly_eq_fst: "inpoly vert node edge_arg ftol
   = fst (inpoly_call \<lparr> c_vert = vert, c_node = node, c_edge = edge_arg \<rparr> ftol)"
  by (simp add: inpoly_def)

lemma inpoly_Inr_prep:
  assumes "inpoly vert node edge_arg ftol = Inr (STAT, BNDS)"
  shows "\<exists>p. preprocess vert node edge_arg = Inr p
     \<and> STAT = map (\<lambda>q. in_bbox node q \<and> fst (point_class p ftol (swapc (flip_of vert node) q))) vert
     \<and> BNDS = map (\<lambda>q. in_bbox node q \<and> snd (point_class p ftol (swapc (flip_of vert node) q))) vert"
proof (cases "preprocess vert node edge_arg")
  case (Inl err)
  then show ?thesis using assms by (simp add: inpoly_eq_fst inpoly_call_fail)
next
  case (Inr p)
  then show ?thesis using assms by (simp add: inpoly_eq_fst inpoly_call_prep)
qed

lemma point_class_inv: "snd (point_class p ftol q) \<longrightarrow> fst (point_class p ftol q)"
  unfolding point_class_def by (rule classify_inv)

lemma inpoly_returns_iff:
  "(\<exists>r. inpoly vert node edge_arg ftol = Inr r) \<longleftrightarrow>
     node \<noteq> [] \<and> (\<exists>q\<in>set vert. in_bbox node q)
     \<and> (\<forall>edge. edge_arg = Some edge \<longrightarrow> edges_ok (length node) edge)"
proof -
  have "(\<exists>r. inpoly vert node edge_arg ftol = Inr r) \<longleftrightarrow> (\<exists>p. preprocess vert node edge_arg = Inr p)"
    by (cases "preprocess vert node edge_arg")
       (auto simp: inpoly_eq_fst inpoly_call_fail inpoly_call_prep)
  also have "\<dots> \<longleftrightarrow> node \<noteq> [] \<and> (\<exists>q\<in>set vert. in_bbox node q)
     \<and> (\<forall>edge. edge_arg = Some edge \<longrightarrow> edges_ok (length node) edge)"
    using edges_ok_chain [of "length node"]
    by (cases edge_arg) (auto simp: preprocess_Inr filter_empty_conv)
  finally show ?thesis .
qed

lemma inpoly_call_frame:
  "c_vert (snd (inpoly_call c ftol)) = c_vert c \<and> c_node (snd (inpoly_call c ftol)) = c_node c"
  by (auto simp: inpoly_call_def Let_def split: sum.splits prod.splits)

lemma inpoly_zero_extent:
  "inpoly [(1/2, 1/2)] [(0, 0), (1, 0), (1, 1), (0, 1)] None (5 / 10 ^ 14) = Inr ([True], [False])
   \<and> (case preprocess [(1/2, 1/2)] [(0, 0), (1, 0), (1, 1), (0, 1)] None of
         Inl err \<Rightarrow> None | Inr p \<Rightarrow> Some (p_lbar p)) = Some 0"
  by code_simp

section \<open>Input checks\<close>

text \<open>
  Claim C1, as amended. The source has no validation of its own: what rejects an input is
  the array library. A call with no query point (\<open>N = 0\<close>), with no node (\<open>M = 0\<close>), or
  with an explicit edge index outside \<open>[-M, M)\<close> fails with an error (ValueError or
  IndexError) raised by the preprocessing, before any kernel work; the call returns that
  error, no result arrays, and has written to none of the caller's arrays.
\<close>

theorem inpoly_rejects:
  assumes "vert = [] \<or> node = []
     \<or> (\<exists>edge a b. edge_arg = Some edge \<and> (a, b) \<in> set edge
          \<and> (a < - int (length node) \<or> int (length node) \<le> a
             \<or> b < - int (length node) \<or> int (length node) \<le> b))"
  shows "\<exists>err. preprocess vert node edge_arg = Inl err
     \<and> inpoly_call \<lparr> c_vert = vert, c_node = node, c_edge = edge_arg \<rparr> ftol
         = (Inl err, \<lparr> c_vert = vert, c_node = node, c_edge = edge_arg \<rparr>)
     \<and> inpoly vert node edge_arg ftol = Inl err"
proof -
  have "\<not> (\<exists>p. preprocess vert node edge_arg = Inr p)"
  proof
    assume "\<exists>p. preprocess vert node edge_arg = Inr p"
    then obtain edge where ok: "node \<noteq> []" "filter (in_bbox node) vert \<noteq> []"
      "edge_arg = Some edge \<or> edge_arg = None \<and> edge = closed_chain (length node)"
      "edges_ok (length node) edge"
      by (auto simp: preprocess_Inr)
    from assms ok(1,2) obtain edge' a b where bad: "edge_arg = Some edge'" "(a, b) \<in> set edge'"
      "a < - int (length node) \<or> int (length node) \<le> a
         \<or> b < - int (length node) \<or> int (length node) \<le> b"
      by auto
    then have "(a, b) \<in> set edge" using ok(3) by auto
    then have "index_ok (length node) a \<and> index_ok (length node) b"
      using ok(4) by (force simp: edges_ok_def)
    then show False using bad(3) by (auto simp: index_ok_def)
  qed
  then obtain err where "preprocess vert node edge_arg = Inl err"
    by (cases "preprocess vert node edge_arg") auto
  then show ?thesis
    by (auto simp: inpoly_eq_fst inpoly_call_fail)
qed

theorem inpoly_rejects_witness:
  "([(1/2, 1/2)] = [] \<or> square = []
     \<or> (\<exists>edge a b. Some [(0, 1), (1, 4)] = Some edge \<and> (a, b) \<in> set edge
          \<and> (a < - int (length square) \<or> int (length square) \<le> a
             \<or> b < - int (length square) \<or> int (length square) \<le> b)))
   \<and> (\<exists>err. preprocess [(1/2, 1/2)] square (Some [(0, 1), (1, 4)]) = Inl err
     \<and> inpoly_call \<lparr> c_vert = [(1/2, 1/2)], c_node = square, c_edge = Some [(0, 1), (1, 4)] \<rparr> ftol_default
         = (Inl err, \<lparr> c_vert = [(1/2, 1/2)], c_node = square, c_edge = Some [(0, 1), (1, 4)] \<rparr>)
     \<and> inpoly [(1/2, 1/2)] square (Some [(0, 1), (1, 4)]) ftol_default = Inl err)"
proof -
  have h: "[(1/2, 1/2)] = [] \<or> square = []
     \<or> (\<exists>edge a b. Some [(0, 1), (1, 4)] = Some edge \<and> (a, b) \<in> set edge
          \<and> (a < - int (length square) \<or> int (length square) \<le> a
             \<or> b < - int (length square) \<or> int (length square) \<le> b))"
    by (auto simp: square_def)
  show ?thesis by (rule conjI [OF h inpoly_rejects [OF h]])
qed

text \<open>
  The claim as stated (every call with \<open>M < 2\<close> or an edge index outside \<open>[0, M)\<close> fails)
  is false: a call with a single node returns a result, and so does a call whose edge
  array holds the index \<open>-4\<close> for four nodes, which the preprocessing accepts and reads
  as node \<open>0\<close>.
\<close>

theorem inpoly_accepts_counterexample:
  "inpoly [(0, 0)] [(0, 0)] None (5 / 10 ^ 14) = Inr ([True], [True])
   \<and> inpoly [(1/2, 1/2)] [(0, 0), (1, 0), (1, 1), (0, 1)] (Some [(0, 1), (1, 2), (2, 3), (3, -4)])
       (5 / 10 ^ 14) = Inr ([True], [False])
   \<and> (case preprocess [(1/2, 1/2)] [(0, 0), (1, 0), (1, 1), (0, 1)]
              (Some [(0, 1), (1, 2), (2, 3), (3, -4)]) of
         Inl err \<Rightarrow> None | Inr p \<Rightarrow> Some (p_edge p))
       = Some [(0, 1), (1, 2), (2, 3), (-4, 3)]"
  by code_simp

section \<open>The result arrays\<close>

text \<open>
  Claim C2. Whenever \<open>inpoly\<close> returns, both arrays have length \<open>N\<close>, a point marked
  on-boundary is marked inside, and entry \<open>i\<close> of the two arrays is the classification of
  query point \<open>i\<close> itself: false and false when the point is outside the bounding box of
  the nodes, and otherwise the flags the oriented edges give to that point (with the axes
  swapped when the preprocessing swapped them). By \<open>inpoly_returns_iff\<close> the call returns
  exactly when there is a node, every explicit edge index lies in \<open>[-M, M)\<close> and at least
  one query point lies in the bounding box.
\<close>

theorem inpoly_result_aligned:
  assumes "inpoly vert node edge_arg ftol = Inr (STAT, BNDS)"
  shows "length STAT = length vert \<and> length BNDS = length vert
     \<and> (\<forall>i<length vert. BNDS ! i \<longrightarrow> STAT ! i)
     \<and> (\<exists>p. preprocess vert node edge_arg = Inr p
          \<and> (\<forall>i<length vert. (STAT ! i, BNDS ! i)
                = (if p_mask p ! i then point_class p ftol (swapc (flip_of vert node) (vert ! i))
                   else (False, False))))"
proof -
  obtain p where p: "preprocess vert node edge_arg = Inr p"
    and S: "STAT = map (\<lambda>q. in_bbox node q \<and> fst (point_class p ftol (swapc (flip_of vert node) q))) vert"
    and B: "BNDS = map (\<lambda>q. in_bbox node q \<and> snd (point_class p ftol (swapc (flip_of vert node) q))) vert"
    using inpoly_Inr_prep [OF assms] by blast
  have m: "p_mask p = map (in_bbox node) vert"
    using p by (auto simp: preprocess_Inr prep_of_fields)
  have len: "length STAT = length vert" "length BNDS = length vert"
    by (simp_all add: S B)
  have inv: "\<forall>i<length vert. BNDS ! i \<longrightarrow> STAT ! i"
    using point_class_inv by (simp add: S B)
  have al: "\<forall>i<length vert. (STAT ! i, BNDS ! i)
                = (if p_mask p ! i then point_class p ftol (swapc (flip_of vert node) (vert ! i))
                   else (False, False))"
    by (simp add: S B m)
  show ?thesis using len inv al p by blast
qed

theorem inpoly_result_aligned_witness:
  "inpoly queries square None ftol_default
     = Inr ([True, True, False, True], [False, True, False, True])
   \<and> length [True, True, False, True] = length queries
   \<and> length [False, True, False, True] = length queries
   \<and> (\<exists>p. preprocess queries square None = Inr p
        \<and> (\<forall>i<length queries. ([True, True, False, True] ! i, [False, True, False, True] ! i)
              = (if p_mask p ! i
                 then point_class p ftol_default (swapc (flip_of queries square) (queries ! i))
                 else (False, False))))"
proof -
  have h: "inpoly queries square None ftol_default
     = Inr ([True, True, False, True], [False, True, False, True])"
    by code_simp
  show ?thesis using h inpoly_result_aligned [OF h] by blast
qed

section \<open>A call none of whose points survives the pruning\<close>

text \<open>
  Claim C3 does not hold of the code. With the unit square and the single query point
  \<open>(2, 2)\<close> no point survives the bounding-box pruning, \<open>np.amin\<close> is applied to an empty
  array (source line 96) and the call raises ValueError, although the result arrays were
  filled with false beforehand for the pruned points. (A pruned set of zero extent is
  handled: see \<open>inpoly_zero_extent\<close>.)
\<close>

theorem inpoly_no_survivor_raises:
  "inpoly [(2, 2)] [(0, 0), (1, 0), (1, 1), (0, 1)] None (5 / 10 ^ 14) = Inl ValueError"
  by code_simp

section \<open>The caller's arrays\<close>

text \<open>
  Claim C4 does not hold of the code. \<open>vert\<close> and \<open>node\<close> are never written
  (\<open>inpoly_call_frame\<close>), but an edge array passed by the caller is reoriented in place by
  \<open>edge[swap, :] = temp[:, (1, 0)]\<close> (source line 109): after the call below the caller's
  row \<open>(3, 0)\<close> has become \<open>(0, 3)\<close>.
\<close>

theorem inpoly_call_reorients_caller_edges:
  "c_edge (snd (inpoly_call
      \<lparr> c_vert = [(1/2, 1/2)], c_node = [(0, 0), (1, 0), (1, 1), (0, 1)],
        c_edge = Some [(0, 1), (1, 2), (2, 3), (3, 0)] \<rparr> (5 / 10 ^ 14)))
   = Some [(0, 1), (1, 2), (2, 3), (0, 3)]"
  by code_simp

section \<open>The unit square\<close>

text \<open>
  Claim C5. For the nodes \<open>(0,0), (1,0), (1,1), (0,1)\<close>, the edge argument omitted, the
  default tolerance and the query points \<open>(0.5,0.5), (0,0.5), (2,2), (0,0)\<close>, \<open>inpoly\<close>
  returns inside = [true, true, false, true] and on_boundary = [false, true, false, true].
\<close>

theorem inpoly_unit_square:
  "inpoly [(1/2, 1/2), (0, 1/2), (2, 2), (0, 0)] [(0, 0), (1, 0), (1, 1), (0, 1)] None (5 / 10 ^ 14)
     = Inr ([True, True, False, True], [False, True, False, True])"
  by code_simp

section \<open>Bounding-box pruning\<close>

text \<open>
  Claim C6 does not hold of the code for every call. With the unit square and the query
  points \<open>(2, 2)\<close> and \<open>(3, 0.5)\<close>, both strictly outside the bounding box of the nodes,
  the call raises ValueError (\<open>np.amin\<close> of the empty pruned array, source line 96) and
  neither point receives inside = false and on_boundary = false. This is the defect of
  claim C3 seen from the pruned points.
\<close>

theorem inpoly_all_outside_raises:
  "inpoly [(2, 2), (3, 1/2)] [(0, 0), (1, 0), (1, 1), (0, 1)] None (5 / 10 ^ 14) = Inl ValueError"
  by code_simp

text \<open>So it is for every call none of whose query points lies in the bounding box.\<close>

lemma inpoly_raises_without_survivor:
  assumes "\<forall>q\<in>set vert. \<not> in_bbox node q"
  shows "\<exists>err. inpoly vert node edge_arg ftol = Inl err"
proof -
  have "\<not> (\<exists>r. inpoly vert node edge_arg ftol = Inr r)"
    using assms inpoly_returns_iff [of vert node edge_arg ftol] by blast
  then show ?thesis by (cases "inpoly vert node edge_arg ftol") auto
qed

text \<open>What the code does for the calls that return: a query point strictly outside the
  bounding box of the nodes has inside = false and on_boundary = false, the mask keeps a
  point exactly when the four comparisons hold with equality allowed, and the points
  handed to the kernel are the kept points and no other (as a multiset, after the axis
  swap).\<close>

lemma bbox_exclusion_of_returned:
  assumes "inpoly vert node edge_arg ftol = Inr (STAT, BNDS)" and "i < length vert"
  shows "(fst (vert ! i) < Min (set (map fst node)) \<or> Max (set (map fst node)) < fst (vert ! i)
          \<or> snd (vert ! i) < Min (set (map snd node)) \<or> Max (set (map snd node)) < snd (vert ! i)
            \<longrightarrow> \<not> STAT ! i \<and> \<not> BNDS ! i)
     \<and> (\<exists>p. preprocess vert node edge_arg = Inr p
          \<and> (p_mask p ! i \<longleftrightarrow>
                Min (set (map fst node)) \<le> fst (vert ! i) \<and> Min (set (map snd node)) \<le> snd (vert ! i)
                \<and> fst (vert ! i) \<le> Max (set (map fst node)) \<and> snd (vert ! i) \<le> Max (set (map snd node)))
          \<and> mset (p_vert p) = mset (map (swapc (flip_of vert node)) (filter (in_bbox node) vert)))"
proof -
  obtain p where p: "preprocess vert node edge_arg = Inr p"
    and S: "STAT = map (\<lambda>q. in_bbox node q \<and> fst (point_class p ftol (swapc (flip_of vert node) q))) vert"
    and B: "BNDS = map (\<lambda>q. in_bbox node q \<and> snd (point_class p ftol (swapc (flip_of vert node) q))) vert"
    using inpoly_Inr_prep [OF assms(1)] by blast
  obtain edge where e: "p = prep_of vert node edge"
    using p by (auto simp: preprocess_Inr)
  have out: "fst (vert ! i) < Min (set (map fst node)) \<or> Max (set (map fst node)) < fst (vert ! i)
          \<or> snd (vert ! i) < Min (set (map snd node)) \<or> Max (set (map snd node)) < snd (vert ! i)
            \<longrightarrow> \<not> STAT ! i \<and> \<not> BNDS ! i"
    using assms(2) by (auto simp: S B in_bbox_def)
  have m: "p_mask p ! i \<longleftrightarrow>
                Min (set (map fst node)) \<le> fst (vert ! i) \<and> Min (set (map snd node)) \<le> snd (vert ! i)
                \<and> fst (vert ! i) \<le> Max (set (map fst node)) \<and> snd (vert ! i) \<le> Max (set (map snd node))"
    using assms(2) by (simp add: e prep_of_fields(1) in_bbox_def)
  have k: "mset (p_vert p) = mset (map (swapc (flip_of vert node)) (filter (in_bbox node) vert))"
    unfolding e by (rule mset_p_vert)
  show ?thesis using out m k p by blast
qed

section \<open>The synthesized edge list\<close>

text \<open>
  Claim C7. When the edge argument is omitted and there are \<open>M\<close> nodes, the edge array
  that \<open>inpoly\<close> builds is the closed chain \<open>(0,1), (1,2), ..., (M-2,M-1), (M-1,0)\<close>.
  (With no node at all the construction raises, see \<open>default_edge_zero\<close>.)
\<close>

theorem default_edge_chain:
  assumes "0 < m"
  shows "default_edge m = Inr (map (\<lambda>i. (int i, int i + 1)) [0..<m - 1] @ [(int m - 1, 0)])"
  using assms by (simp add: default_edge_eq closed_chain_def)

theorem default_edge_chain_witness:
  "0 < (4::nat) \<and> default_edge 4 = Inr [(0, 1), (1, 2), (2, 3), (3, 0)]"
  using default_edge_chain [of 4] by (simp add: upt_rec)

section \<open>The order of the edges\<close>

text \<open>
  Claim C8. The arrays the kernel returns do not change when the rows of the edge array
  are permuted; in the returned arrays a point marked on-boundary is marked inside; and an
  edge test on a point already marked on-boundary changes nothing.
\<close>

theorem kernel_edge_order:
  assumes "mset edge' = mset edge"
  shows "u_inpoly vert node edge' ftol lbar = u_inpoly vert node edge ftol lbar
       \<and> (\<forall>stat bnds j. u_inpoly vert node edge ftol lbar = Inr (stat, bnds) \<longrightarrow> j < length vert
             \<longrightarrow> bnds ! j \<longrightarrow> stat ! j)
       \<and> (\<forall>feps g jpos stat bnds. bnds ! jpos
             \<longrightarrow> test_point feps g vert jpos (stat, bnds) = (stat, bnds))"
  using kernel_perm [OF assms] kernel_inv test_point_latched by blast

theorem kernel_edge_order_witness:
  "mset [(1, 2), (0, 1)] = mset [(0::int, 1::int), (1, 2)]
   \<and> u_inpoly [(0, 0), (1/2, 1/2)] square [(1, 2), (0, 1)] ftol_default (1/2)
       = u_inpoly [(0, 0), (1/2, 1/2)] square [(0, 1), (1, 2)] ftol_default (1/2)"
proof -
  have h: "mset [(1, 2), (0, 1)] = mset [(0::int, 1::int), (1, 2)]"
    by simp
  show ?thesis
    using h kernel_edge_order [OF h, of "[(0, 0), (1/2, 1/2)]" square ftol_default "1/2"]
    by blast
qed

section \<open>The candidate window of an edge\<close>






text \<open>The two runs of the kernel in the instance above: the first edge latches the point
  \<open>(0, 0)\<close>, the second toggles the point \<open>(0.5, 0.5)\<close>.\<close>

lemma kernel_window_values:
  "u_inpoly sorted_queries square (take 1 two_edges) (1/10) 1 = Inr ([True, False], [True, False])
   \<and> u_inpoly sorted_queries square (take (Suc 1) two_edges) (1/10) 1
       = Inr ([True, True], [True, False])"
  by code_simp

section \<open>Degenerate edges\<close>

text \<open>
  Claim C10. For an edge whose two nodes have the same coordinates the condition
  \<open>yone \<le> y < ytwo\<close> of both toggle branches is unsatisfiable, and processing the edge
  never toggles an inside flag: the flags of a point are left as they were or latched to
  (true, true).
\<close>

theorem degenerate_edge_no_toggle:
  assumes "sized n sb" and "hi \<le> n" and "j < n"
  shows "(\<forall>y. \<not> (yone (edge_geom veps p p) \<le> y \<and> y < ytwo (edge_geom veps p p)))
     \<and> flags (edge_loop feps vert (edge_geom veps p p, lo, hi) sb) j \<in> {flags sb j, (True, True)}"
proof -
  have "flags (edge_loop feps vert (edge_geom veps p p, lo, hi) sb) j
         = (if lo \<le> j \<and> j < hi then point_step feps (edge_geom veps p p) (vert ! j) (flags sb j)
            else flags sb j)"
    using flags_fold_test [OF assms] by (simp add: edge_loop_def)
  then have "flags (edge_loop feps vert (edge_geom veps p p, lo, hi) sb) j \<in> {flags sb j, (True, True)}"
    using point_step_degenerate [of feps veps p "vert ! j" "flags sb j"] by auto
  moreover have "\<forall>y. \<not> (yone (edge_geom veps p p) \<le> y \<and> y < ytwo (edge_geom veps p p))"
    by (simp add: edge_geom_def)
  ultimately show ?thesis by blast
qed

theorem degenerate_edge_no_toggle_witness:
  "sized 2 ([False, False], [False, False]) \<and> (2::nat) \<le> 2 \<and> (0::nat) < 2
   \<and> ((\<forall>y. \<not> (yone (edge_geom 0 (0, 0) (0, 0)) \<le> y \<and> y < ytwo (edge_geom 0 (0, 0) (0, 0))))
     \<and> flags (edge_loop 0 [(0, 0), (1/2, 1/2)] (edge_geom 0 (0, 0) (0, 0), 0, 2)
          ([False, False], [False, False])) 0
        \<in> {flags ([False, False], [False, False]) 0, (True, True)})"
proof -
  have h1: "sized 2 ([False, False], [False, False])" by (simp add: sized_def)
  have h2: "(2::nat) \<le> 2" by simp
  have h3: "(0::nat) < 2" by simp
  show ?thesis
    by (intro conjI h1 h2 h3 degenerate_edge_no_toggle [OF h1 h2 h3, THEN conjunct1]
        degenerate_edge_no_toggle [OF h1 h2 h3, THEN conjunct2])
qed

end
